theory Spec2Isabelle
  imports Main
begin

section \<open>Strings and numbers of the host language\<close>

text \<open>
  The server is JavaScript. A string is modelled as a list of characters, each
  character standing for one code unit below 256 (Latin-1). Numbers that the tag logic
  handles are non-negative integers; they are modelled as \<^typ>\<open>nat\<close> (a double holds
  every integer below \<open>2 ^ 53\<close> exactly) and \<open>parseInt\<close> results as \<^typ>\<open>int option\<close>,
  \<open>None\<close> standing for \<open>NaN\<close>.
\<close>

definition is_ws :: "char \<Rightarrow> bool" where
  \<comment> \<open>white space and line terminators, as \<open>String.prototype.trim\<close> and \<open>parseInt\<close> strip them\<close>
  "is_ws c \<longleftrightarrow> (of_char c :: nat) \<in> {9, 10, 11, 12, 13, 32, 160}"

definition trim :: "string \<Rightarrow> string" where
  "trim s = rev (dropWhile is_ws (rev (dropWhile is_ws s)))"

definition substring_from :: "string \<Rightarrow> nat \<Rightarrow> string" where
  \<comment> \<open>\<open>s.substring(i)\<close>\<close>
  "substring_from s i = drop i s"

definition substring :: "string \<Rightarrow> nat \<Rightarrow> nat \<Rightarrow> string" where
  \<comment> \<open>\<open>s.substring(i, j)\<close> for \<open>i \<le> j\<close>\<close>
  "substring s i j = take (j - i) (drop i s)"

definition digit_value :: "char \<Rightarrow> nat option" where
  \<comment> \<open>the value of a character as a digit of some radix up to 36\<close>
  "digit_value c =
     (let k = (of_char c :: nat) in
      if 48 \<le> k \<and> k \<le> 57 then Some (k - 48)
      else if 97 \<le> k \<and> k \<le> 122 then Some (k - 87)
      else if 65 \<le> k \<and> k \<le> 90 then Some (k - 55)
      else None)"

definition is_radix_digit :: "nat \<Rightarrow> char \<Rightarrow> bool" where
  "is_radix_digit R c = (case digit_value c of None \<Rightarrow> False | Some d \<Rightarrow> d < R)"

definition radix_value :: "nat \<Rightarrow> string \<Rightarrow> nat" where
  "radix_value R Z =
     foldl (\<lambda>a c. a * R + (case digit_value c of None \<Rightarrow> 0 | Some d \<Rightarrow> d)) 0 Z"

definition parseInt :: "string \<Rightarrow> int option" where
  \<comment> \<open>\<open>parseInt(str)\<close> with no radix argument\<close>
  "parseInt str =
     (let s0 = dropWhile is_ws str;
          sign = (if s0 \<noteq> [] \<and> hd s0 = CHR ''-'' then - 1 else (1::int));
          s1 = (if s0 \<noteq> [] \<and> (hd s0 = CHR ''+'' \<or> hd s0 = CHR ''-'') then tl s0 else s0);
          hex = (take 2 s1 = ''0x'' \<or> take 2 s1 = ''0X'');
          R = (if hex then 16 else 10);
          s2 = (if hex then drop 2 s1 else s1);
          Z = takeWhile (is_radix_digit R) s2
      in if Z = [] then None else Some (sign * int (radix_value R Z)))"

fun String_of_nat :: "nat \<Rightarrow> string" where
  \<comment> \<open>\<open>String(n)\<close> for a non-negative integer\<close>
  "String_of_nat n =
     (if n < 10 then [char_of (48 + n)]
      else String_of_nat (n div 10) @ [char_of (48 + n mod 10)])"

declare String_of_nat.simps [simp del]

definition padStart :: "string \<Rightarrow> nat \<Rightarrow> char \<Rightarrow> string" where
  \<comment> \<open>\<open>s.padStart(w, c)\<close> with a one-character filler\<close>
  "padStart s w c = replicate (w - length s) c @ s"

definition render_tag :: "string \<Rightarrow> nat \<Rightarrow> string" where
  \<comment> \<open>the template \<open>${prefix}${String(n).padStart(5, '0')}\<close>\<close>
  "render_tag prefix n = prefix @ padStart (String_of_nat n) 5 (CHR ''0'')"

section \<open>Documents\<close>

text \<open>
  A field read from a document or a request body is a JavaScript value. Of a channel
  only \<open>tagNumber\<close> is kept, of a campaign its storage identifier (rendered as by
  \<open>_id.toString()\<close>), its human-readable code and its channels; \<open>channels = None\<close> stands
  for a campaign whose \<open>channels\<close> field is missing or is not an array.
\<close>

datatype jsval = JUndefined | JNull | JStr string | JNum int | JBool bool

record channel =
  tagNumber :: jsval

record campaign =
  doc_id :: string
  campaignId :: "string option"
  channels :: "channel list option"

fun truthy :: "jsval \<Rightarrow> bool" where
  "truthy JUndefined = False"
| "truthy JNull = False"
| "truthy (JStr s) = (s \<noteq> [])"
| "truthy (JNum n) = (n \<noteq> 0)"
| "truthy (JBool b) = b"

datatype error = StoreError | TypeError

section \<open>The reconciler's scan\<close>

definition scan_tag :: "string \<Rightarrow> (string \<times> nat) option" where
  \<comment> \<open>the body of the inner \<open>forEach\<close> for a trimmed tag: \<open>None\<close> is a skipped tag\<close>
  "scan_tag tag =
     (if length tag < 3 then None
      else let prefix = substring tag 0 2;
               numberPart = parseInt (substring_from tag 2)
           in case numberPart of
                None \<Rightarrow> None
              | Some k \<Rightarrow> if k < 0 then None else Some (prefix, nat k))"

definition scan_channel :: "channel \<Rightarrow> error + (string \<times> nat) option" where
  \<comment> \<open>\<open>channel.tagNumber && channel.tagNumber.trim() !== ''\<close>: calling \<open>trim\<close> on a
      truthy value that is not a string throws\<close>
  "scan_channel ch =
     (case tagNumber ch of
        JStr s \<Rightarrow> if s \<noteq> [] \<and> trim s \<noteq> [] then Inr (scan_tag (trim s)) else Inr None
      | v \<Rightarrow> if truthy v then Inl TypeError else Inr None)"

type_synonym numbers_by_prefix = "(string \<times> nat list) list"

fun push_number :: "numbers_by_prefix \<Rightarrow> string \<Rightarrow> nat \<Rightarrow> numbers_by_prefix" where
  \<comment> \<open>\<open>if (!obj[prefix]) obj[prefix] = []; obj[prefix].push(n)\<close>, keys in creation order\<close>
  "push_number [] prefix n = [(prefix, [n])]"
| "push_number ((q, ns) # rest) prefix n =
     (if q = prefix then (q, ns @ [n]) # rest else (q, ns) # push_number rest prefix n)"

fun scan_channels :: "channel list \<Rightarrow> numbers_by_prefix \<Rightarrow> error + numbers_by_prefix" where
  "scan_channels [] obj = Inr obj"
| "scan_channels (ch # chs) obj =
     (case scan_channel ch of
        Inl e \<Rightarrow> Inl e
      | Inr None \<Rightarrow> scan_channels chs obj
      | Inr (Some (prefix, numberPart)) \<Rightarrow> scan_channels chs (push_number obj prefix numberPart))"

fun scan_campaigns :: "campaign list \<Rightarrow> numbers_by_prefix \<Rightarrow> error + numbers_by_prefix" where
  "scan_campaigns [] obj = Inr obj"
| "scan_campaigns (c # cs) obj =
     (case channels c of
        None \<Rightarrow> scan_campaigns cs obj
      | Some chs \<Rightarrow>
          (case scan_channels chs obj of
             Inl e \<Rightarrow> Inl e
           | Inr obj' \<Rightarrow> scan_campaigns cs obj'))"

definition is_array_index :: "string \<Rightarrow> bool" where
  \<comment> \<open>a property key that is a canonical numeric string below \<open>2 ^ 32 - 1\<close>\<close>
  "is_array_index k \<longleftrightarrow>
     k \<noteq> [] \<and> list_all (is_radix_digit 10) k \<and> (hd k \<noteq> CHR ''0'' \<or> k = ''0'')
     \<and> radix_value 10 k < 2 ^ 32 - 1"

definition Object_entries :: "(string \<times> 'a) list \<Rightarrow> (string \<times> 'a) list" where
  \<comment> \<open>own keys: array indices in ascending order, then the other keys in creation order\<close>
  "Object_entries obj =
     sort_key (\<lambda>kv. radix_value 10 (fst kv)) (filter (\<lambda>kv. is_array_index (fst kv)) obj)
     @ filter (\<lambda>kv. \<not> is_array_index (fst kv)) obj"

definition Math_max :: "nat list \<Rightarrow> nat" where
  \<comment> \<open>\<open>Math.max(...ns)\<close>; it is only called on a non-empty list of non-negative numbers\<close>
  "Math_max ns = fold max ns 0"

section \<open>The store\<close>

text \<open>
  The state holds the two collections the tag logic works on, the sequence behind the
  human-readable campaign codes, and two books: \<open>faults\<close> says for each coming call to
  the store whether it fails (an exhausted list means no further failure), and \<open>trace\<close>
  records every write to the store and every response sent, in order. The unique index on
  \<open>prefix\<close> makes the counter collection a map from prefix to \<open>lastNumber\<close>.
\<close>

datatype response =
    TagGenerated string string nat
  | PleaseSelectChannelType
  | UnknownChannelType string
  | ServerError
  | TagCountersSynced
  | DuplicateInCampaign "string list"
  | DuplicateAcrossCampaigns "string list"
  | CampaignSaved string
  | CampaignUpdated string
  | InvalidCampaignIdFormat
  | NoCampaignData
  | CampaignNotFound

datatype event =
    CounterInsert string nat
  | CounterSet string nat
  | CampaignSeqIncrement
  | CampaignUpsert string
  | CampaignUpdate string
  | Respond response

record state =
  campaigns :: "campaign list"
  tagCounters :: "string \<rightharpoonup> nat"
  campaignSeq :: nat
  faults :: "bool list"
  trace :: "event list"

type_synonym 'a io = "state \<Rightarrow> (error + 'a) \<times> state"

definition store_call :: "state \<Rightarrow> bool \<times> state" where
  \<comment> \<open>one round trip to the store: \<open>True\<close> when it succeeds\<close>
  "store_call st =
     (case faults st of
        [] \<Rightarrow> (True, st)
      | f # fs \<Rightarrow> (\<not> f, st\<lparr>faults := fs\<rparr>))"

definition bind_io :: "'a io \<Rightarrow> ('a \<Rightarrow> 'b io) \<Rightarrow> 'b io" where
  \<comment> \<open>\<open>await\<close> and go on; a rejected promise throws\<close>
  "bind_io m f st = (case m st of (Inl e, st1) \<Rightarrow> (Inl e, st1) | (Inr x, st1) \<Rightarrow> f x st1)"

definition return_io :: "'a \<Rightarrow> 'a io" where
  "return_io x st = (Inr x, st)"

definition store_read :: "(state \<Rightarrow> 'a) \<Rightarrow> 'a io" where
  "store_read q st =
     (case store_call st of (ok, st1) \<Rightarrow> if ok then (Inr (q st1), st1) else (Inl StoreError, st1))"

definition store_write :: "(state \<Rightarrow> state) \<Rightarrow> unit io" where
  "store_write w st =
     (case store_call st of (ok, st1) \<Rightarrow> if ok then (Inr (), w st1) else (Inl StoreError, st1))"

definition has_tag :: "string \<Rightarrow> campaign \<Rightarrow> bool" where
  \<comment> \<open>the query \<open>{'channels.tagNumber': tag}\<close>\<close>
  "has_tag tag c =
     (case channels c of None \<Rightarrow> False | Some chs \<Rightarrow> list_ex (\<lambda>ch. tagNumber ch = JStr tag) chs)"

definition campaigns_find_all :: "campaign list io" where
  \<comment> \<open>\<open>campaigns.find({}).toArray()\<close>\<close>
  "campaigns_find_all = store_read campaigns"

definition campaigns_findOne_by_tag :: "string \<Rightarrow> campaign option io" where
  "campaigns_findOne_by_tag tag = store_read (\<lambda>st. find (has_tag tag) (campaigns st))"

definition tagCounters_findOne :: "string \<Rightarrow> nat option io" where
  \<comment> \<open>\<open>tagCounters.findOne({prefix})\<close>, giving the document's \<open>lastNumber\<close>\<close>
  "tagCounters_findOne prefix = store_read (\<lambda>st. tagCounters st prefix)"

definition tagCounters_find_all :: "(string \<rightharpoonup> nat) io" where
  "tagCounters_find_all = store_read tagCounters"

definition tagCounters_insertOne :: "string \<Rightarrow> nat \<Rightarrow> unit io" where
  "tagCounters_insertOne prefix n =
     store_write (\<lambda>st. st\<lparr>tagCounters := (tagCounters st)(prefix \<mapsto> n),
                          trace := trace st @ [CounterInsert prefix n]\<rparr>)"

definition tagCounters_updateOne :: "string \<Rightarrow> nat \<Rightarrow> unit io" where
  \<comment> \<open>\<open>updateOne({prefix}, {$set: {lastNumber: n}}, {upsert: true})\<close>\<close>
  "tagCounters_updateOne prefix n =
     store_write (\<lambda>st. st\<lparr>tagCounters := (tagCounters st)(prefix \<mapsto> n),
                          trace := trace st @ [CounterSet prefix n]\<rparr>)"

definition respond :: "response \<Rightarrow> state \<Rightarrow> response \<times> state" where
  "respond r st = (r, st\<lparr>trace := trace st @ [Respond r]\<rparr>)"

definition respond_io :: "response \<Rightarrow> response io" where
  \<comment> \<open>\<open>res.json(...)\<close> inside a \<open>try\<close> block\<close>
  "respond_io r st = (case respond r st of (r', st1) \<Rightarrow> (Inr r', st1))"

section \<open>The reconciler\<close>

fun sync_counters :: "numbers_by_prefix \<Rightarrow> unit io" where
  \<comment> \<open>the loop over \<open>Object.entries(tagNumbersByPrefix)\<close>\<close>
  "sync_counters [] st = (Inr (), st)"
| "sync_counters ((prefix, numbers) # rest) st =
     (if length numbers > 0 then
        (let validNumbers = filter (\<lambda>n. n \<ge> 0) numbers in
         if length validNumbers > 0 then
           (case tagCounters_updateOne prefix (Math_max validNumbers) st of
              (Inl e, st1) \<Rightarrow> (Inl e, st1)
            | (Inr u, st1) \<Rightarrow> sync_counters rest st1)
         else sync_counters rest st)
      else sync_counters rest st)"

definition syncTagCounters_try :: "unit io" where
  \<comment> \<open>the \<open>try\<close> block of \<open>syncTagCounters\<close>\<close>
  "syncTagCounters_try =
     bind_io campaigns_find_all (\<lambda>allCampaigns st.
       case scan_campaigns allCampaigns [] of
         Inl e \<Rightarrow> (Inl e, st)
       | Inr tagNumbersByPrefix \<Rightarrow>
           bind_io (sync_counters (Object_entries tagNumbersByPrefix))
             (\<lambda>u. bind_io tagCounters_find_all (\<lambda>existingCounters. return_io ())) st)"

definition syncTagCounters :: "unit io" where
  \<comment> \<open>the \<open>catch\<close> block only logs, so the promise always resolves\<close>
  "syncTagCounters st = (case syncTagCounters_try st of (r, st1) \<Rightarrow> (Inr (), st1))"

definition post_tags_sync :: "state \<Rightarrow> response \<times> state" where
  \<comment> \<open>\<open>POST /api/tags/sync\<close>\<close>
  "post_tags_sync st =
     (case syncTagCounters st of
        (Inr u, st1) \<Rightarrow> respond TagCountersSynced st1
      | (Inl e, st1) \<Rightarrow> respond ServerError st1)"

section \<open>The allocator\<close>

definition channel_prefixes :: "(string \<times> string) list" where
  \<comment> \<open>the chain of comparisons on \<open>trimmedChannelType\<close>, first match first\<close>
  "channel_prefixes =
     [(''Instagram'', ''IG''), (''Facebook'', ''FB''), (''TikTok'', ''TT''),
      (''YouTube'', ''YT''), (''Snapchat'', ''SC''), (''Google'', ''GG''),
      (''WhatsApp Group'', ''WA''), (''Gold councils'', ''GT''),
      (''Residential Community'', ''RC''), (''Lang/Cultural group'', ''LC''),
      (''Religious group'', ''RG''), (''Bluecollar Camp'', ''BC''),
      (''Neighbourhood Community'', ''NC''), (''Social organisations'', ''SO''),
      (''Event'', ''EV''), (''Exhibition'', ''EX''), (''Channel Partners'', ''CP''),
      (''Corporate Partners'', ''CO''), (''Hotel'', ''HT''), (''Tour Driver'', ''TD''),
      (''Tours&Travel Agency'', ''TC''), (''New collection Launch'', ''PL''),
      (''Website'', ''WS''), (''Email'', ''EM''), (''SMS'', ''SMS''),
      (''Print Media'', ''PM''), (''Radio'', ''RD''), (''Television'', ''TV''),
      (''Referral'', ''RF''), (''Storefront'', ''SF''), (''Outdoor Ads'', ''OA''),
      (''Others'', ''OT'')]"

definition prefix_for :: "string \<Rightarrow> string option" where
  "prefix_for channelType = map_of channel_prefixes channelType"

definition generate_try :: "string \<Rightarrow> response io" where
  \<comment> \<open>the \<open>try\<close> block of the handler, from the counter read on\<close>
  "generate_try prefix =
     bind_io (tagCounters_findOne prefix) (\<lambda>counter.
     bind_io (case counter of
                None \<Rightarrow> bind_io (tagCounters_insertOne prefix 0) (\<lambda>u. return_io 0)
              | Some lastNumber \<Rightarrow> return_io lastNumber) (\<lambda>lastNumber.
     let nextNumber = lastNumber + 1;
         newTagNumber = render_tag prefix nextNumber in
     bind_io (campaigns_findOne_by_tag newTagNumber) (\<lambda>existingTag.
       if existingTag \<noteq> None then
         (let incrementedNumber = nextNumber + 1;
              incrementedTagNumber = render_tag prefix incrementedNumber in
          bind_io (tagCounters_updateOne prefix incrementedNumber) (\<lambda>u.
            respond_io (TagGenerated incrementedTagNumber prefix incrementedNumber)))
       else
         bind_io (tagCounters_updateOne prefix nextNumber) (\<lambda>u.
           respond_io (TagGenerated newTagNumber prefix nextNumber)))))"

definition post_tags_generate :: "string \<Rightarrow> state \<Rightarrow> response \<times> state" where
  \<comment> \<open>\<open>POST /api/tags/generate\<close>; an absent \<open>channelType\<close> is the empty string\<close>
  "post_tags_generate channelType st =
     (let trimmedChannelType = (if channelType \<noteq> [] then trim channelType else []) in
      if trimmedChannelType = [] then respond PleaseSelectChannelType st
      else case prefix_for trimmedChannelType of
             None \<Rightarrow> respond (UnknownChannelType trimmedChannelType) st
           | Some prefix \<Rightarrow>
               (case generate_try prefix st of
                  (Inl e, st1) \<Rightarrow> respond ServerError st1
                | (Inr r, st1) \<Rightarrow> (r, st1)))"

section \<open>The campaign tag validator\<close>

text \<open>
  A submission is the parsed \<open>campaignData\<close>, an object: its human-readable code, if it
  carries one, its channels, and whether it carries any other field. The other fields
  themselves, the upload of images and the parsing of the request body are left out; they
  touch neither the campaign collection nor the counters before the validation has passed.
\<close>

record campaign_data =
  cd_campaignId :: "string option"
  cd_channels :: "channel list option"
  cd_other :: bool

definition no_data :: "campaign_data \<Rightarrow> bool" where
  \<comment> \<open>\<open>Object.keys(campaignData).length === 0\<close>\<close>
  "no_data d \<longleftrightarrow> cd_campaignId d = None \<and> cd_channels d = None \<and> \<not> cd_other d"

fun string_tag :: "jsval \<Rightarrow> string option" where
  \<comment> \<open>the filter \<open>typeof tag === 'string' && tag.trim() !== ''\<close>, then \<open>tag.trim()\<close>\<close>
  "string_tag (JStr s) = (if trim s \<noteq> [] then Some (trim s) else None)"
| "string_tag v = None"

definition submitted_tagNumbers :: "channel list \<Rightarrow> string list" where
  "submitted_tagNumbers chs = List.map_filter string_tag (map tagNumber chs)"

fun indexOf :: "string list \<Rightarrow> string \<Rightarrow> int" where
  "indexOf [] x = - 1"
| "indexOf (y # ys) x =
     (if y = x then 0 else (let i = indexOf ys x in if i < 0 then - 1 else i + 1))"

definition duplicates_in :: "string list \<Rightarrow> string list" where
  \<comment> \<open>\<open>tagNumbers.filter((tag, index) => tagNumbers.indexOf(tag) !== index)\<close>\<close>
  "duplicates_in tagNumbers =
     map fst (filter (\<lambda>(tag, index). indexOf tagNumbers tag \<noteq> int index)
                     (zip tagNumbers [0..<length tagNumbers]))"

definition Set_elements :: "'a list \<Rightarrow> 'a list" where
  \<comment> \<open>\<open>[...new Set(xs)]\<close>: each value once, in the order of first occurrence\<close>
  "Set_elements xs = rev (remdups (rev xs))"

definition collect_existing_tags :: "campaign list \<Rightarrow> jsval list" where
  \<comment> \<open>\<open>if (channel.tagNumber) existingTags.add(channel.tagNumber)\<close> over all channels\<close>
  "collect_existing_tags cs =
     concat (map (\<lambda>c. case channels c of
                         None \<Rightarrow> []
                       | Some chs \<Rightarrow> filter truthy (map tagNumber chs)) cs)"

definition validate_tagNumbers :: "string option \<Rightarrow> channel list option \<Rightarrow> response option io" where
  \<comment> \<open>the validation block that both handlers carry; the update handler skips the
      campaign whose \<open>_id.toString()\<close> is the request's identifier, the create handler
      skips none. \<open>Some r\<close> is the early \<open>return res.status(400)\<close>.\<close>
  "validate_tagNumbers exclude chans =
     (case chans of
        None \<Rightarrow> return_io None
      | Some chs \<Rightarrow>
          (let tagNumbers = submitted_tagNumbers chs in
           if length tagNumbers > 0 then
             if card (set tagNumbers) \<noteq> length tagNumbers then
               return_io (Some (DuplicateInCampaign (Set_elements (duplicates_in tagNumbers))))
             else
               bind_io campaigns_find_all (\<lambda>existingCampaigns.
                 let existingTags = collect_existing_tags
                       (filter (\<lambda>c. case exclude of None \<Rightarrow> True | Some i \<Rightarrow> doc_id c \<noteq> i)
                               existingCampaigns);
                     duplicateTags = filter (\<lambda>tag. JStr tag \<in> set existingTags) tagNumbers
                 in if length duplicateTags > 0
                    then return_io (Some (DuplicateAcrossCampaigns duplicateTags))
                    else return_io None)
           else return_io None))"

section \<open>Saving a campaign\<close>

definition apply_set :: "campaign_data \<Rightarrow> campaign \<Rightarrow> campaign" where
  \<comment> \<open>\<open>{$set: campaignData}\<close>\<close>
  "apply_set d c =
     c\<lparr>campaignId := (case cd_campaignId d of None \<Rightarrow> campaignId c | Some x \<Rightarrow> Some x),
       channels := (case cd_channels d of None \<Rightarrow> channels c | Some chs \<Rightarrow> Some chs)\<rparr>"

fun update_first :: "('a \<Rightarrow> bool) \<Rightarrow> ('a \<Rightarrow> 'a) \<Rightarrow> 'a list \<Rightarrow> 'a list option" where
  \<comment> \<open>change the first document that matches; \<open>None\<close> when none does\<close>
  "update_first P f [] = None"
| "update_first P f (x # xs) =
     (if P x then Some (f x # xs) else map_option ((#) x) (update_first P f xs))"

definition getNextCampaignId :: "string io" where
  \<comment> \<open>\<open>findOneAndUpdate\<close> with \<open>$inc\<close>, returning the document after the change\<close>
  "getNextCampaignId =
     bind_io (store_write (\<lambda>st. st\<lparr>campaignSeq := campaignSeq st + 1,
                                   trace := trace st @ [CampaignSeqIncrement]\<rparr>))
       (\<lambda>u st. (Inr (''MK_'' @ padStart (String_of_nat (campaignSeq st)) 6 (CHR ''0'')), st))"

definition campaigns_upsert :: "string \<Rightarrow> string \<Rightarrow> campaign_data \<Rightarrow> unit io" where
  \<comment> \<open>\<open>updateOne({campaignId: code}, {$set: campaignData}, {upsert: true})\<close>; \<open>new_oid\<close>
      is the identifier the store gives to an inserted document\<close>
  "campaigns_upsert new_oid code d =
     store_write (\<lambda>st.
       st\<lparr>campaigns :=
            (case update_first (\<lambda>c. campaignId c = Some code) (apply_set d) (campaigns st) of
               Some cs \<Rightarrow> cs
             | None \<Rightarrow> campaigns st
                 @ [apply_set d \<lparr>doc_id = new_oid, campaignId = Some code, channels = None\<rparr>]),
          trace := trace st @ [CampaignUpsert code]\<rparr>)"

definition campaigns_updateOne :: "string \<Rightarrow> campaign_data \<Rightarrow> bool io" where
  \<comment> \<open>\<open>updateOne({_id: objectId}, {$set: campaignData}, {upsert: false})\<close>; the result
      says whether a document matched\<close>
  "campaigns_updateOne objectId d st =
     (case store_call st of
        (ok, st1) \<Rightarrow>
          if \<not> ok then (Inl StoreError, st1)
          else (case update_first (\<lambda>c. doc_id c = objectId) (apply_set d) (campaigns st1) of
                  None \<Rightarrow> (Inr False, st1)
                | Some cs \<Rightarrow>
                    (Inr True, st1\<lparr>campaigns := cs,
                                    trace := trace st1 @ [CampaignUpdate objectId]\<rparr>)))"

definition campaigns_findOne_by_code :: "string \<Rightarrow> campaign option io" where
  "campaigns_findOne_by_code code =
     store_read (\<lambda>st. find (\<lambda>c. campaignId c = Some code) (campaigns st))"

definition campaigns_findOne_by_id :: "string \<Rightarrow> campaign option io" where
  "campaigns_findOne_by_id objectId = store_read (\<lambda>st. find (\<lambda>c. doc_id c = objectId) (campaigns st))"

definition post_campaigns_try :: "string \<Rightarrow> campaign_data \<Rightarrow> response io" where
  "post_campaigns_try new_oid campaignData =
     bind_io (validate_tagNumbers None (cd_channels campaignData)) (\<lambda>verdict.
       case verdict of
         Some r \<Rightarrow> respond_io r
       | None \<Rightarrow>
           bind_io (case cd_campaignId campaignData of
                      None \<Rightarrow> getNextCampaignId
                    | Some code \<Rightarrow> if code \<noteq> [] then return_io code else getNextCampaignId)
             (\<lambda>code.
           bind_io (campaigns_upsert new_oid code (campaignData\<lparr>cd_campaignId := Some code\<rparr>))
             (\<lambda>u.
           bind_io (campaigns_findOne_by_code code) (\<lambda>savedCampaign.
           bind_io syncTagCounters (\<lambda>u.
           respond_io (CampaignSaved code))))))"

definition post_campaigns :: "string \<Rightarrow> campaign_data \<Rightarrow> state \<Rightarrow> response \<times> state" where
  \<comment> \<open>\<open>POST /api/campaigns\<close>\<close>
  "post_campaigns new_oid campaignData st =
     (case post_campaigns_try new_oid campaignData st of
        (Inl e, st1) \<Rightarrow> respond ServerError st1
      | (Inr r, st1) \<Rightarrow> (r, st1))"

definition put_campaign_try :: "string \<Rightarrow> string \<Rightarrow> campaign_data \<Rightarrow> response io" where
  "put_campaign_try objectId id_param campaignData =
     bind_io (campaigns_findOne_by_id objectId) (\<lambda>existingCampaign.
       case existingCampaign of
         None \<Rightarrow> respond_io CampaignNotFound
       | Some c \<Rightarrow>
           bind_io (validate_tagNumbers (Some id_param) (cd_channels campaignData)) (\<lambda>verdict.
             case verdict of
               Some r \<Rightarrow> respond_io r
             | None \<Rightarrow>
                 bind_io (campaigns_updateOne objectId campaignData) (\<lambda>matched.
                   if \<not> matched then respond_io CampaignNotFound
                   else
                     bind_io (campaigns_findOne_by_id objectId) (\<lambda>updatedCampaign.
                     bind_io syncTagCounters (\<lambda>u.
                     respond_io (CampaignUpdated id_param))))))"

definition put_campaign ::
  "(string \<Rightarrow> string option) \<Rightarrow> string \<Rightarrow> campaign_data \<Rightarrow> state \<Rightarrow> response \<times> state" where
  \<comment> \<open>\<open>PUT /api/campaigns/:campaignId\<close>. The driver's \<open>ObjectId\<close> is not part of the
      repository: \<open>ObjectId s\<close> is \<open>None\<close> when \<open>ObjectId.isValid(s)\<close> is false and
      otherwise the rendering of \<open>new ObjectId(s)\<close>. An error of the store is answered
      with status 500.\<close>
  "put_campaign ObjectId id_param campaignData st =
     (case ObjectId id_param of
        None \<Rightarrow> respond InvalidCampaignIdFormat st
      | Some objectId \<Rightarrow>
          if no_data campaignData then respond NoCampaignData st
          else (case put_campaign_try objectId id_param campaignData st of
                  (Inl e, st1) \<Rightarrow> respond ServerError st1
                | (Inr r, st1) \<Rightarrow> (r, st1)))"

section \<open>Notions used in the statements\<close>

definition tag_persisted :: "string \<Rightarrow> state \<Rightarrow> bool" where
  \<comment> \<open>some persisted channel carries exactly this tag\<close>
  "tag_persisted tag st = list_ex (has_tag tag) (campaigns st)"

definition stored_lastNumber :: "state \<Rightarrow> string \<Rightarrow> nat" where
  \<comment> \<open>the counter the allocator works from: \<open>0\<close> when the prefix has no counter yet\<close>
  "stored_lastNumber st prefix = (case tagCounters st prefix of None \<Rightarrow> 0 | Some l \<Rightarrow> l)"


fun is_duplicate_response :: "response \<Rightarrow> bool" where
  "is_duplicate_response (DuplicateInCampaign ts) = True"
| "is_duplicate_response (DuplicateAcrossCampaigns ts) = True"
| "is_duplicate_response r = False"

definition same_data :: "state \<Rightarrow> state \<Rightarrow> bool" where
  \<comment> \<open>nothing was written and nothing was sent between the two states\<close>
  "same_data st st1 \<longleftrightarrow>
     campaigns st1 = campaigns st \<and> tagCounters st1 = tagCounters st
     \<and> campaignSeq st1 = campaignSeq st \<and> trace st1 = trace st"

definition counter_updates :: "numbers_by_prefix \<Rightarrow> (string \<times> nat) list" where
  \<comment> \<open>the upserts the reconciler's loop issues for the given entries, in order\<close>
  "counter_updates es = map (\<lambda>(p, ns). (p, Math_max ns)) (filter (\<lambda>(p, ns). ns \<noteq> []) es)"

definition sync_result :: "state \<Rightarrow> state" where
  \<comment> \<open>the state a reconciliation ends in when the store never fails\<close>
  "sync_result st =
     (case scan_campaigns (campaigns st) [] of
        Inl e \<Rightarrow> st
      | Inr obj \<Rightarrow>
          st\<lparr>tagCounters := tagCounters st ++ map_of (rev (counter_updates (Object_entries obj))),
             trace := trace st @ map (\<lambda>(p, n). CounterSet p n)
                                     (counter_updates (Object_entries obj))\<rparr>)"

definition numbers_of :: "numbers_by_prefix \<Rightarrow> string \<Rightarrow> nat list" where
  "numbers_of obj p = (case map_of obj p of None \<Rightarrow> [] | Some ns \<Rightarrow> ns)"

definition well_formed :: "numbers_by_prefix \<Rightarrow> bool" where
  \<comment> \<open>what the scan maintains: one entry per key, no empty array\<close>
  "well_formed obj \<longleftrightarrow> distinct (map fst obj) \<and> list_all (\<lambda>kv. snd kv \<noteq> []) obj"

definition has_prefixed_tag :: "string \<Rightarrow> campaign \<Rightarrow> bool" where
  \<comment> \<open>some channel of the campaign carries a tag that, trimmed, starts with the prefix\<close>
  "has_prefixed_tag p c =
     (case channels c of
        None \<Rightarrow> False
      | Some chs \<Rightarrow>
          list_ex (\<lambda>ch. case tagNumber ch of JStr s \<Rightarrow> take 2 (trim s) = p | v \<Rightarrow> False) chs)"

definition nothing_written :: "state \<Rightarrow> response \<times> state \<Rightarrow> bool" where
  \<comment> \<open>between the state and the outcome nothing was stored: the only event is the response\<close>
  "nothing_written st out \<longleftrightarrow>
     campaigns (snd out) = campaigns st \<and> tagCounters (snd out) = tagCounters st
     \<and> campaignSeq (snd out) = campaignSeq st \<and> trace (snd out) = trace st @ [Respond (fst out)]"

section \<open>Sample states\<close>

text \<open>Concrete stores on which the statements below are exercised.\<close>

definition demo_state :: state where
  "demo_state =
     \<lparr>campaigns =
        [\<lparr>doc_id = ''65a000000000000000000001'', campaignId = Some ''MK_000001'',
          channels = Some [\<lparr>tagNumber = JStr ''IG00002''\<rparr>, \<lparr>tagNumber = JStr ''FB00010''\<rparr>]\<rparr>,
         \<lparr>doc_id = ''65a000000000000000000002'', campaignId = Some ''MK_000002'',
          channels = Some [\<lparr>tagNumber = JStr ''IG00003''\<rparr>, \<lparr>tagNumber = JNull\<rparr>]\<rparr>],
      tagCounters = [''IG'' \<mapsto> 5],
      campaignSeq = 2, faults = [], trace = []\<rparr>"



definition fresh_state :: state where
  "fresh_state = \<lparr>campaigns = [], tagCounters = Map.empty, campaignSeq = 0, faults = [], trace = []\<rparr>"

definition canonical_ObjectId :: "string \<Rightarrow> string option" where
  \<comment> \<open>an instance of the driver's \<open>ObjectId\<close>: it accepts the 24 lower-case hexadecimal
      digits of a rendered identifier and nothing else\<close>
  "canonical_ObjectId s =
     (if length s = 24 \<and> list_all (\<lambda>c. c \<in> set ''0123456789abcdef'') s then Some s else None)"

definition padded_submission :: campaign_data where
  "padded_submission = \<lparr>cd_campaignId = None, cd_channels = Some [\<lparr>tagNumber = JStr ''FB00010 ''\<rparr>], cd_other = True\<rparr>"

definition plain_submission :: campaign_data where
  "plain_submission = \<lparr>cd_campaignId = None, cd_channels = Some [\<lparr>tagNumber = JStr ''FB00010''\<rparr>], cd_other = True\<rparr>"


definition repeated_submission :: campaign_data where
  "repeated_submission =
     \<lparr>cd_campaignId = None,
      cd_channels = Some [\<lparr>tagNumber = JStr ''TT00001''\<rparr>, \<lparr>tagNumber = JStr '' TT00001''\<rparr>], cd_other = True\<rparr>"

section \<open>Auxiliary facts\<close>

lemma is_decimal_digit_iff:
  "is_radix_digit 10 c \<longleftrightarrow> 48 \<le> (of_char c :: nat) \<and> (of_char c :: nat) \<le> 57"
  by (auto simp: is_radix_digit_def digit_value_def Let_def)

lemma decimal_digit_value:
  "is_radix_digit 10 c \<Longrightarrow> digit_value c = Some ((of_char c :: nat) - 48)"
  by (auto simp: is_radix_digit_def digit_value_def Let_def split: if_splits)

lemma decimal_digit_plain:
  assumes "is_radix_digit 10 c"
  shows "\<not> is_ws c" and "c \<noteq> CHR ''-''" and "c \<noteq> CHR ''+''"
  using assms by (auto simp: is_decimal_digit_iff is_ws_def)

lemma digit_char_is_digit: "(d::nat) < 10 \<Longrightarrow> is_radix_digit 10 (char_of (48 + d))"
  by (simp add: is_decimal_digit_iff)



lemma String_of_nat_digits: "list_all (is_radix_digit 10) (String_of_nat n)"
proof (induction n rule: String_of_nat.induct)
  case (1 n)
  show ?case
  proof (cases "n < 10")
    case True
    then show ?thesis
      by (subst String_of_nat.simps) (simp add: digit_char_is_digit)
  next
    case False
    with 1 show ?thesis
      by (subst String_of_nat.simps) (simp add: digit_char_is_digit)
  qed
qed

lemma String_of_nat_not_Nil: "String_of_nat n \<noteq> []"
  by (subst String_of_nat.simps) simp



lemma padded_digits: "list_all (is_radix_digit 10) (padStart (String_of_nat n) 5 (CHR ''0''))"
proof -
  have "list_all (is_radix_digit 10) (replicate k (CHR ''0''))" for k
    by (simp add: list_all_iff is_decimal_digit_iff)
  then show ?thesis
    by (simp add: padStart_def String_of_nat_digits)
qed


lemma padded_not_Nil: "padStart (String_of_nat n) 5 (CHR ''0'') \<noteq> []"
  by (simp add: padStart_def String_of_nat_not_Nil)



lemma trim_id:
  assumes "s \<noteq> []" "\<not> is_ws (hd s)" "\<not> is_ws (last s)"
  shows "trim s = s"
proof -
  from assms have 1: "dropWhile is_ws s = s" by (cases s) auto
  from assms have 2: "dropWhile is_ws (rev s) = rev s"
    by (cases "rev s") (auto simp: last_rev[symmetric] simp del: last_rev)
  show ?thesis by (simp add: trim_def 1 2)
qed



lemma store_call_ok: "faults st = [] \<Longrightarrow> store_call st = (True, st)"
  by (simp add: store_call_def)

lemma store_read_ok: "faults st = [] \<Longrightarrow> store_read q st = (Inr (q st), st)"
  by (simp add: store_read_def store_call_ok)

lemma store_write_ok: "faults st = [] \<Longrightarrow> store_write w st = (Inr (), w st)"
  by (simp add: store_write_def store_call_ok)

lemma updateOne_ok:
  "faults st = [] \<Longrightarrow> tagCounters_updateOne p n st =
     (Inr (), st\<lparr>tagCounters := (tagCounters st)(p \<mapsto> n), trace := trace st @ [CounterSet p n]\<rparr>)"
  by (simp add: tagCounters_updateOne_def store_write_ok)

lemma counter_updates_Nil: "counter_updates [] = []"
  by (simp add: counter_updates_def)

lemma counter_updates_Cons:
  "counter_updates ((p, ns) # es) =
     (if ns \<noteq> [] then (p, Math_max ns) # counter_updates es else counter_updates es)"
  by (simp add: counter_updates_def)

lemma map_add_upd_rev:
  "m(p \<mapsto> v) ++ map_of (rev us) = m ++ map_of (rev ((p, v) # us))"
  by (rule ext) (simp add: map_add_def split: option.splits)

lemma sync_counters_ok:
  "faults st = [] \<Longrightarrow> sync_counters es st =
     (Inr (), st\<lparr>tagCounters := tagCounters st ++ map_of (rev (counter_updates es)),
                  trace := trace st @ map (\<lambda>(p, n). CounterSet p n) (counter_updates es)\<rparr>)"
proof (induction es arbitrary: st)
  case Nil
  then show ?case by (simp add: counter_updates_Nil)
next
  case (Cons e es)
  obtain p ns where e: "e = (p, ns)" by (cases e)
  show ?case
  proof (cases "ns = []")
    case True
    with Cons e show ?thesis by (simp add: counter_updates_Cons)
  next
    case False
    let ?st1 = "st\<lparr>tagCounters := (tagCounters st)(p \<mapsto> Math_max ns),
                    trace := trace st @ [CounterSet p (Math_max ns)]\<rparr>"
    have f1: "faults ?st1 = []" using Cons.prems by simp
    have "sync_counters (e # es) st = sync_counters es ?st1"
      using False e Cons.prems by (simp add: updateOne_ok)
    also have "\<dots> = (Inr (), ?st1\<lparr>tagCounters := tagCounters ?st1 ++ map_of (rev (counter_updates es)),
                  trace := trace ?st1 @ map (\<lambda>(p, n). CounterSet p n) (counter_updates es)\<rparr>)"
      by (rule Cons.IH[OF f1])
    also have "\<dots> = (Inr (), st\<lparr>tagCounters := tagCounters st ++ map_of (rev (counter_updates (e # es))),
                  trace := trace st @ map (\<lambda>(p, n). CounterSet p n) (counter_updates (e # es))\<rparr>)"
      unfolding e counter_updates_Cons using False
      by (simp add: map_add_upd_rev del: map_of.simps rev.simps)
    finally show ?thesis .
  qed
qed


lemma map_of_push_number:
  "map_of (push_number obj p n) =
     (map_of obj)(p \<mapsto> (case map_of obj p of None \<Rightarrow> [n] | Some ns \<Rightarrow> ns @ [n]))"
  by (induction obj p n rule: push_number.induct) (auto simp: fun_eq_iff)

lemma keys_push_number: "fst ` set (push_number obj p n) = insert p (fst ` set obj)"
  by (induction obj p n rule: push_number.induct) auto

lemma well_formed_push_number: "well_formed obj \<Longrightarrow> well_formed (push_number obj p n)"
proof (induction obj p n rule: push_number.induct)
  case (1 prefix n)
  then show ?case by (simp add: well_formed_def)
next
  case (2 q ns rest prefix n)
  then show ?case
    by (auto simp: well_formed_def keys_push_number)
qed

lemma numbers_of_push_number:
  "numbers_of (push_number obj p n) q =
     (if q = p then numbers_of obj p @ [n] else numbers_of obj q)"
  by (simp add: numbers_of_def map_of_push_number split: option.splits)

lemma well_formed_lookup:
  "well_formed obj \<Longrightarrow> map_of obj p = (if numbers_of obj p = [] then None else Some (numbers_of obj p))"
proof (cases "map_of obj p")
  case None
  then show ?thesis by (simp add: numbers_of_def)
next
  case (Some ns)
  assume "well_formed obj"
  moreover from Some have "(p, ns) \<in> set obj" by (rule map_of_SomeD)
  ultimately have "ns \<noteq> []" by (auto simp: well_formed_def list_all_iff)
  with Some show ?thesis by (simp add: numbers_of_def)
qed

lemma scan_channels_well_formed:
  "scan_channels chs obj = Inr obj' \<Longrightarrow> well_formed obj \<Longrightarrow> well_formed obj'"
proof (induction chs obj rule: scan_channels.induct)
  case (1 obj)
  then show ?case by simp
next
  case (2 ch chs obj)
  show ?case
  proof (cases "scan_channel ch")
    case (Inl e)
    with 2 show ?thesis by simp
  next
    case (Inr r)
    show ?thesis
    proof (cases r)
      case None
      with 2 Inr show ?thesis by simp
    next
      case (Some pn)
      obtain q k where pn: "pn = (q, k)" by (cases pn)
      from "2.prems" Inr Some pn
      have "scan_channels chs (push_number obj q k) = Inr obj'" by simp
      moreover have "well_formed (push_number obj q k)"
        using "2.prems"(2) by (rule well_formed_push_number)
      ultimately show ?thesis
        by (rule "2.IH"(2)[OF Inr Some pn[symmetric]])
    qed
  qed
qed

lemma scan_campaigns_well_formed:
  "scan_campaigns cs obj = Inr obj' \<Longrightarrow> well_formed obj \<Longrightarrow> well_formed obj'"
  by (induction cs obj rule: scan_campaigns.induct)
     (auto split: sum.splits option.splits intro: scan_channels_well_formed)

lemma scan_channels_numbers:
  "scan_channels chs obj = Inr obj' \<Longrightarrow>
     set (numbers_of obj' p) =
       set (numbers_of obj p) \<union> {n. \<exists>ch \<in> set chs. scan_channel ch = Inr (Some (p, n))}"
proof (induction chs obj rule: scan_channels.induct)
  case (1 obj)
  then show ?case by simp
next
  case (2 ch chs obj)
  show ?case
  proof (cases "scan_channel ch")
    case (Inl e)
    with 2 show ?thesis by simp
  next
    case (Inr r)
    show ?thesis
    proof (cases r)
      case None
      with 2 Inr show ?thesis by auto
    next
      case (Some pn)
      obtain q k where pn: "pn = (q, k)" by (cases pn)
      from 2 Inr Some pn
      have "set (numbers_of obj' p) =
              set (numbers_of (push_number obj q k) p)
              \<union> {n. \<exists>ch \<in> set chs. scan_channel ch = Inr (Some (p, n))}"
        by simp
      with Inr Some pn show ?thesis
        by (auto simp: numbers_of_push_number split: if_splits)
    qed
  qed
qed

lemma scan_campaigns_numbers:
  "scan_campaigns cs obj = Inr obj' \<Longrightarrow>
     set (numbers_of obj' p) =
       set (numbers_of obj p)
       \<union> {n. \<exists>c \<in> set cs. \<exists>chs. channels c = Some chs
              \<and> (\<exists>ch \<in> set chs. scan_channel ch = Inr (Some (p, n)))}"
proof (induction cs obj rule: scan_campaigns.induct)
  case (1 obj)
  then show ?case by simp
next
  case (2 c cs obj)
  show ?case
  proof (cases "channels c")
    case None
    with 2 show ?thesis by auto
  next
    case (Some chs)
    with "2.prems" obtain obj1 where 1: "scan_channels chs obj = Inr obj1"
      and r: "scan_campaigns cs obj1 = Inr obj'"
      by (auto split: sum.splits)
    from "2.IH"(2)[OF Some 1 r] scan_channels_numbers[OF 1, of p] Some
    show ?thesis by auto
  qed
qed




lemma Object_entries_set: "set (Object_entries obj) = set obj"
  by (auto simp: Object_entries_def)

lemma Object_entries_distinct:
  assumes "distinct (map fst obj)"
  shows "distinct (map fst (Object_entries obj))"
proof -
  from assms have d: "distinct obj" and i: "inj_on fst (set obj)"
    by (simp_all add: distinct_map)
  have "distinct (Object_entries obj)"
    using d by (auto simp: Object_entries_def)
  moreover have "inj_on fst (set (Object_entries obj))"
    using i by (simp add: Object_entries_set)
  ultimately show ?thesis by (simp add: distinct_map)
qed

lemma map_of_counter_updates:
  assumes "well_formed obj"
  shows "map_of (rev (counter_updates (Object_entries obj))) p =
           map_option Math_max (map_of obj p)"
proof -
  from assms have wf: "distinct (map fst obj)" "\<forall>kv \<in> set obj. snd kv \<noteq> []"
    by (simp_all add: well_formed_def list_all_iff)
  have ne: "filter (\<lambda>(p, ns). ns \<noteq> []) es = es" if "set es = set obj" for es
    using wf(2) that by (fastforce intro!: filter_True)
  let ?f = "\<lambda>(p, ns). (p, Math_max ns)"
  have fst: "fst \<circ> ?f = fst"
    by (rule ext) (simp add: case_prod_beta)
  have d1: "distinct (map fst (rev (map ?f (Object_entries obj))))"
    using Object_entries_distinct[OF wf(1)] by (simp add: rev_map[symmetric] fst)
  have d2: "distinct (map fst (map ?f obj))"
    using wf(1) by (simp add: fst)
  have "map_of (rev (map ?f (Object_entries obj))) = map_of (map ?f obj)"
    using d1 d2 by (subst map_of_inject_set) (simp_all add: Object_entries_set)
  moreover have "map_of (map ?f obj) p = map_option Math_max (map_of obj p)"
    by (simp add: map_of_map)
  ultimately show ?thesis
    by (simp add: counter_updates_def ne Object_entries_set)
qed


lemma syncTagCounters_ok:
  assumes "faults st = []"
  shows "syncTagCounters st = (Inr (), sync_result st)"
proof (cases "scan_campaigns (campaigns st) []")
  case (Inl e)
  with assms show ?thesis
    by (simp add: syncTagCounters_def syncTagCounters_try_def bind_io_def
          campaigns_find_all_def store_read_ok sync_result_def)
next
  case (Inr obj)
  let ?st2 = "st\<lparr>tagCounters := tagCounters st ++ map_of (rev (counter_updates (Object_entries obj))),
             trace := trace st @ map (\<lambda>(p, n). CounterSet p n)
                                     (counter_updates (Object_entries obj))\<rparr>"
  have f2: "faults ?st2 = []" using assms by simp
  have "syncTagCounters_try st = (Inr (), ?st2)"
    using assms Inr
    by (simp add: syncTagCounters_try_def bind_io_def campaigns_find_all_def store_read_ok
          sync_counters_ok tagCounters_find_all_def store_read_ok[OF f2] return_io_def)
  with Inr show ?thesis
    by (simp add: syncTagCounters_def sync_result_def)
qed

lemma sync_result_fields:
  "campaigns (sync_result st) = campaigns st"
  "faults (sync_result st) = faults st"
  "campaignSeq (sync_result st) = campaignSeq st"
  by (simp_all add: sync_result_def split: sum.splits)

lemma sync_result_counter:
  assumes "scan_campaigns (campaigns st) [] = Inr obj"
  shows "tagCounters (sync_result st) p =
           (case map_of obj p of None \<Rightarrow> tagCounters st p | Some ns \<Rightarrow> Some (Math_max ns))"
proof -
  have "well_formed []" by (simp add: well_formed_def)
  with assms have "well_formed obj" by (rule scan_campaigns_well_formed)
  then show ?thesis
    using assms
    by (simp add: sync_result_def map_add_def map_of_counter_updates split: option.splits)
qed

lemma sync_result_type_error:
  "scan_campaigns (campaigns st) [] = Inl e \<Longrightarrow> sync_result st = st"
  by (simp add: sync_result_def)

lemma map_add_twice: "(m ++ m') ++ m' = m ++ m'"
  by (rule ext) (simp add: map_add_def split: option.splits)

lemma sync_result_idem: "tagCounters (sync_result (sync_result st)) = tagCounters (sync_result st)"
  by (cases "scan_campaigns (campaigns st) []") (simp_all add: sync_result_def map_add_twice)


lemmas io_defs = bind_io_def return_io_def store_read_def store_write_def store_call_def
  respond_io_def respond_def

lemma find_has_tag: "(find (has_tag tag) (campaigns st) \<noteq> None) = tag_persisted tag st"
  by (auto simp: tag_persisted_def find_None_iff list_ex_iff)

lemma generate_try_free:
  assumes "faults st = []" and "\<not> tag_persisted (render_tag P (stored_lastNumber st P + 1)) st"
  shows "generate_try P st =
    (let n = stored_lastNumber st P + 1; r = TagGenerated (render_tag P n) P n in
     (Inr r, st\<lparr>tagCounters := (tagCounters st)(P \<mapsto> n),
                 trace := trace st @ (if tagCounters st P = None then [CounterInsert P 0] else [])
                          @ [CounterSet P n, Respond r]\<rparr>))"
proof (cases "tagCounters st P")
  case None
  with assms show ?thesis
    using find_has_tag[of "render_tag P 1" st]
    by (simp add: generate_try_def tagCounters_findOne_def tagCounters_insertOne_def
        tagCounters_updateOne_def campaigns_findOne_by_tag_def io_defs stored_lastNumber_def
        tag_persisted_def Let_def)
next
  case (Some l)
  with assms show ?thesis
    using find_has_tag[of "render_tag P (l + 1)" st]
    by (simp add: generate_try_def tagCounters_findOne_def tagCounters_insertOne_def
        tagCounters_updateOne_def campaigns_findOne_by_tag_def io_defs stored_lastNumber_def
        tag_persisted_def Let_def)
qed

lemma generate_try_taken:
  assumes "faults st = []" and "tag_persisted (render_tag P (stored_lastNumber st P + 1)) st"
  shows "generate_try P st =
    (let n = stored_lastNumber st P + 2; r = TagGenerated (render_tag P n) P n in
     (Inr r, st\<lparr>tagCounters := (tagCounters st)(P \<mapsto> n),
                 trace := trace st @ (if tagCounters st P = None then [CounterInsert P 0] else [])
                          @ [CounterSet P n, Respond r]\<rparr>))"
proof (cases "tagCounters st P")
  case None
  with assms show ?thesis
    using find_has_tag[of "render_tag P 1" st]
    by (simp add: generate_try_def tagCounters_findOne_def tagCounters_insertOne_def
        tagCounters_updateOne_def campaigns_findOne_by_tag_def io_defs stored_lastNumber_def
        tag_persisted_def Let_def)
next
  case (Some l)
  with assms show ?thesis
    using find_has_tag[of "render_tag P (l + 1)" st]
    by (simp add: generate_try_def tagCounters_findOne_def tagCounters_insertOne_def
        tagCounters_updateOne_def campaigns_findOne_by_tag_def io_defs stored_lastNumber_def
        tag_persisted_def Let_def)
qed

lemma prefix_for_not_empty: "prefix_for [] = None"
  by (simp add: prefix_for_def channel_prefixes_def)

lemma post_tags_generate_known:
  assumes "channelType \<noteq> []" and "prefix_for (trim channelType) = Some P"
  shows "post_tags_generate channelType st =
     (case generate_try P st of
        (Inl e, st1) \<Rightarrow> respond ServerError st1
      | (Inr r, st1) \<Rightarrow> (r, st1))"
proof -
  from assms(2) have "trim channelType \<noteq> []"
    using prefix_for_not_empty by auto
  with assms show ?thesis
    by (simp add: post_tags_generate_def Let_def)
qed


lemma same_data_refl: "same_data st st"
  by (simp add: same_data_def)

lemma same_data_trans: "same_data st st1 \<Longrightarrow> same_data st1 st2 \<Longrightarrow> same_data st st2"
  by (simp add: same_data_def)

lemma store_call_same: "store_call st = (ok, st1) \<Longrightarrow> same_data st st1"
  by (auto simp: store_call_def same_data_def split: list.splits)

lemma store_read_same: "store_read q st = (r, st1) \<Longrightarrow> same_data st st1"
  by (auto simp: store_read_def split: prod.splits if_splits dest: store_call_same)

lemma bind_io_Inr:
  assumes "bind_io m f st = (Inr r, st')"
  obtains x st1 where "m st = (Inr x, st1)" and "f x st1 = (Inr r, st')"
  using assms by (auto simp: bind_io_def split: prod.splits sum.splits)

lemma validate_same: "validate_tagNumbers ex chans st = (r, st1) \<Longrightarrow> same_data st st1"
  by (auto simp: validate_tagNumbers_def Let_def return_io_def bind_io_def campaigns_find_all_def
      same_data_refl split: option.splits if_splits prod.splits sum.splits
      dest: store_read_same)

lemma validate_verdict:
  "validate_tagNumbers ex chans st = (Inr (Some r), st1) \<Longrightarrow> is_duplicate_response r"
  by (auto simp: validate_tagNumbers_def Let_def return_io_def bind_io_def
      split: option.splits if_splits prod.splits sum.splits)











lemma post_tags_generate_ok:
  assumes "faults st = []" and "channelType \<noteq> []" and "prefix_for (trim channelType) = Some P"
  shows "post_tags_generate channelType st =
     (let L = stored_lastNumber st P;
          n = (if tag_persisted (render_tag P (L + 1)) st then L + 2 else L + 1);
          r = TagGenerated (render_tag P n) P n
      in (r, st\<lparr>tagCounters := (tagCounters st)(P \<mapsto> n),
                trace := trace st
                  @ (if tagCounters st P = None then [CounterInsert P 0] else [])
                  @ [CounterSet P n, Respond r]\<rparr>))"
proof (cases "tag_persisted (render_tag P (stored_lastNumber st P + 1)) st")
  case True
  then show ?thesis
    using generate_try_taken[OF assms(1) True] post_tags_generate_known[OF assms(2,3), of st]
    by (simp add: Let_def)
next
  case False
  then show ?thesis
    using generate_try_free[OF assms(1) False] post_tags_generate_known[OF assms(2,3), of st]
    by (simp add: Let_def)
qed

lemma Instagram_prefix: "prefix_for (trim ''Instagram'') = Some ''IG''"
  by code_simp

lemma scan_channel_prefix:
  assumes "scan_channel ch = Inr (Some (p, n))"
  shows "\<exists>s. tagNumber ch = JStr s \<and> take 2 (trim s) = p"
  using assms
  by (cases "tagNumber ch")
     (auto simp: scan_channel_def scan_tag_def substring_def Let_def
           split: if_splits option.splits)

lemma no_prefixed_tag_numbers:
  assumes "\<not> list_ex (has_prefixed_tag p) cs" and "scan_campaigns cs [] = Inr obj"
  shows "map_of obj p = None"
proof -
  have "{n. \<exists>c \<in> set cs. \<exists>chs. channels c = Some chs
              \<and> (\<exists>ch \<in> set chs. scan_channel ch = Inr (Some (p, n)))} = {}"
  proof -
    { fix n c chs ch
      assume c: "c \<in> set cs" "channels c = Some chs" "ch \<in> set chs"
        and s: "scan_channel ch = Inr (Some (p, n))"
      from scan_channel_prefix[OF s] obtain s' where "tagNumber ch = JStr s'" "take 2 (trim s') = p"
        by blast
      with c have "has_prefixed_tag p c"
        by (force simp: has_prefixed_tag_def list_ex_iff)
      with c(1) assms(1) have False by (auto simp: list_ex_iff) }
    then show ?thesis by blast
  qed
  moreover have "numbers_of [] p = []" by (simp add: numbers_of_def)
  ultimately have "set (numbers_of obj p) = {}"
    using scan_campaigns_numbers[OF assms(2), of p] by simp
  then have "numbers_of obj p = []" by simp
  moreover have "well_formed obj"
    using assms(2) by (rule scan_campaigns_well_formed) (simp add: well_formed_def)
  ultimately show ?thesis
    using well_formed_lookup[of obj p] by simp
qed

lemma sync_keeps_unobserved:
  assumes "\<not> list_ex (has_prefixed_tag p) (campaigns st)"
  shows "tagCounters (sync_result st) p = tagCounters st p"
proof (cases "scan_campaigns (campaigns st) []")
  case (Inl e)
  then show ?thesis by (simp add: sync_result_type_error)
next
  case (Inr obj)
  with assms have "map_of obj p = None" by (rule no_prefixed_tag_numbers)
  then show ?thesis using sync_result_counter[OF Inr, of p] by simp
qed

lemma has_tag_prefixed: "has_tag t c \<Longrightarrow> has_prefixed_tag (take 2 (trim t)) c"
  by (force simp: has_tag_def has_prefixed_tag_def list_ex_iff split: option.splits)

lemma trim_render_IG: "take 2 (trim (render_tag ''IG'' n)) = ''IG''"
proof -
  let ?w = "padStart (String_of_nat n) 5 (CHR ''0'')"
  have w: "?w \<noteq> []" by (rule padded_not_Nil)
  have "is_radix_digit 10 (last ?w)"
    using padded_digits[of n] w by (simp add: list_all_iff)
  then have "\<not> is_ws (last ?w)" by (rule decimal_digit_plain(1))
  then have "trim (''IG'' @ ?w) = ''IG'' @ ?w"
    using w by (intro trim_id) (simp_all add: is_ws_def)
  then show ?thesis by (simp add: render_tag_def)
qed

lemma respond_io_eq: "respond_io r st = (Inr r, st\<lparr>trace := trace st @ [Respond r]\<rparr>)"
  by (simp add: respond_io_def respond_def)

lemma rejected_after_validation:
  assumes v: "validate_tagNumbers ex chans st = (Inr (Some r), st1)"
  shows "is_duplicate_response r"
    and "nothing_written st (r, st1\<lparr>trace := trace st1 @ [Respond r]\<rparr>)"
  using validate_verdict[OF v] validate_same[OF v]
  by (simp_all add: nothing_written_def same_data_def)

lemma post_campaigns_try_cases:
  assumes "post_campaigns_try new_oid d st = (Inr r, st')"
  shows "(\<exists>code. r = CampaignSaved code) \<or> nothing_written st (r, st')"
proof -
  from assms obtain verdict st1 where
    v: "validate_tagNumbers None (cd_channels d) st = (Inr verdict, st1)"
    and rest: "(case verdict of
         Some r \<Rightarrow> respond_io r
       | None \<Rightarrow>
           bind_io (case cd_campaignId d of
                      None \<Rightarrow> getNextCampaignId
                    | Some code \<Rightarrow> if code \<noteq> [] then return_io code else getNextCampaignId)
             (\<lambda>code.
           bind_io (campaigns_upsert new_oid code (d\<lparr>cd_campaignId := Some code\<rparr>))
             (\<lambda>u.
           bind_io (campaigns_findOne_by_code code) (\<lambda>savedCampaign.
           bind_io syncTagCounters (\<lambda>u.
           respond_io (CampaignSaved code)))))) st1 = (Inr r, st')"
    unfolding post_campaigns_try_def by (erule bind_io_Inr)
  show ?thesis
  proof (cases verdict)
    case None
    with rest show ?thesis
      by (auto simp: respond_io_eq elim!: bind_io_Inr)
  next
    case (Some r0)
    with rest have r: "r0 = r" "st' = st1\<lparr>trace := trace st1 @ [Respond r]\<rparr>"
      by (auto simp: respond_io_eq)
    from v Some r have "nothing_written st (r, st1\<lparr>trace := trace st1 @ [Respond r]\<rparr>)"
      by (intro rejected_after_validation(2)) simp
    with r show ?thesis by simp
  qed
qed

lemma put_campaign_try_cases:
  assumes "put_campaign_try objectId i d st = (Inr r, st')"
  shows "r = CampaignUpdated i \<or> r = CampaignNotFound \<or> nothing_written st (r, st')"
proof -
  from assms obtain existing st1 where
    f: "campaigns_findOne_by_id objectId st = (Inr existing, st1)"
    and rest: "(case existing of
         None \<Rightarrow> respond_io CampaignNotFound
       | Some c \<Rightarrow>
           bind_io (validate_tagNumbers (Some i) (cd_channels d)) (\<lambda>verdict.
             case verdict of
               Some r \<Rightarrow> respond_io r
             | None \<Rightarrow>
                 bind_io (campaigns_updateOne objectId d) (\<lambda>matched.
                   if \<not> matched then respond_io CampaignNotFound
                   else
                     bind_io (campaigns_findOne_by_id objectId) (\<lambda>updatedCampaign.
                     bind_io syncTagCounters (\<lambda>u.
                     respond_io (CampaignUpdated i)))))) st1 = (Inr r, st')"
    unfolding put_campaign_try_def by (erule bind_io_Inr)
  from f have s1: "same_data st st1"
    unfolding campaigns_findOne_by_id_def by (rule store_read_same)
  show ?thesis
  proof (cases existing)
    case None
    with rest show ?thesis by (simp add: respond_io_eq)
  next
    case (Some c)
    with rest obtain verdict st2 where
      v: "validate_tagNumbers (Some i) (cd_channels d) st1 = (Inr verdict, st2)"
      and rest2: "(case verdict of
               Some r \<Rightarrow> respond_io r
             | None \<Rightarrow>
                 bind_io (campaigns_updateOne objectId d) (\<lambda>matched.
                   if \<not> matched then respond_io CampaignNotFound
                   else
                     bind_io (campaigns_findOne_by_id objectId) (\<lambda>updatedCampaign.
                     bind_io syncTagCounters (\<lambda>u.
                     respond_io (CampaignUpdated i))))) st2 = (Inr r, st')"
      by (auto elim!: bind_io_Inr)
    show ?thesis
    proof (cases verdict)
      case None
      with rest2 show ?thesis
        by (auto simp: respond_io_eq elim!: bind_io_Inr split: if_splits)
    next
      case (Some r0)
      with rest2 have r: "r0 = r" "st' = st2\<lparr>trace := trace st2 @ [Respond r]\<rparr>"
        by (auto simp: respond_io_eq)
      from v Some r have "nothing_written st1 (r, st2\<lparr>trace := trace st2 @ [Respond r]\<rparr>)"
        by (intro rejected_after_validation(2)) simp
      with s1 r show ?thesis
        by (simp add: nothing_written_def same_data_def)
    qed
  qed
qed



section \<open>Format round trip\<close>




section \<open>Monotonic counters\<close>

text \<open>
  Claim C1. The claim says that a reconciliation never writes a \<open>lastNumber\<close> below the
  stored one. The code sets the counter of every observed prefix to the largest observed
  number, whatever is stored: with the counter of IG at 5 and only the tags \<open>IG00002\<close>
  and \<open>IG00003\<close> left in the campaigns, the reconciliation stores 3.
\<close>

theorem reconcile_lowers_counter:
  "tagCounters demo_state ''IG'' = Some 5
   \<and> tagCounters (snd (syncTagCounters demo_state)) ''IG'' = Some 3"
  by code_simp

text \<open>
  The rule behind it: after a reconciliation that meets no failure, the counter of every
  observed prefix is the largest observed number, and the stored value plays no part.
\<close>

lemma reconcile_sets_observed_maximum:
  assumes "faults st = []" and "scan_campaigns (campaigns st) [] = Inr obj"
    and "map_of obj p = Some ns"
  shows "tagCounters (snd (syncTagCounters st)) p = Some (Math_max ns)"
  using assms syncTagCounters_ok[of st] sync_result_counter[of st obj p] by simp

section \<open>Allocation\<close>



section \<open>History preservation\<close>

text \<open>
  Claim C4. Let an allocation for Instagram return \<open>IG00001\<close>, and let afterwards the
  campaign collection be any collection in which no channel carries a tag starting with
  \<open>IG\<close>. Then the counter of IG is at 1, a reconciliation leaves it at 1, and the next
  allocation for Instagram returns \<open>IG00002\<close>.
\<close>

theorem history_preserved:
  assumes "faults st0 = []"
    and "fst (post_tags_generate ''Instagram'' st0) = TagGenerated ''IG00001'' ''IG'' 1"
    and "\<not> list_ex (has_prefixed_tag ''IG'') cs"
    and "st = (snd (post_tags_generate ''Instagram'' st0))\<lparr>campaigns := cs\<rparr>"
  shows "tagCounters st ''IG'' = Some 1
         \<and> tagCounters (snd (syncTagCounters st)) ''IG'' = Some 1
         \<and> fst (post_tags_generate ''Instagram'' (snd (syncTagCounters st)))
             = TagGenerated ''IG00002'' ''IG'' 2"
proof -
  have ne: "''Instagram'' \<noteq> []" by simp
  note g0 = post_tags_generate_ok[OF assms(1) ne Instagram_prefix]
  from assms(2) have n: "(if tag_persisted (render_tag ''IG'' (stored_lastNumber st0 ''IG'' + 1)) st0
              then stored_lastNumber st0 ''IG'' + 2 else stored_lastNumber st0 ''IG'' + 1) = 1"
    by (simp add: g0 Let_def)
  have c1: "tagCounters st ''IG'' = Some 1" and f: "faults st = []" and cs: "campaigns st = cs"
    using assms(1) n by (simp_all add: assms(4) g0 Let_def)
  let ?st2 = "sync_result st"
  have s: "syncTagCounters st = (Inr (), ?st2)" using f by (rule syncTagCounters_ok)
  have c2: "tagCounters ?st2 ''IG'' = Some 1"
    using sync_keeps_unobserved[of "''IG''" st] assms(3) cs c1 by simp
  have f2: "faults ?st2 = []" and cs2: "campaigns ?st2 = cs"
    using f cs by (simp_all add: sync_result_fields)
  have l2: "stored_lastNumber ?st2 ''IG'' = 1" using c2 by (simp add: stored_lastNumber_def)
  let ?n = "stored_lastNumber ?st2 ''IG'' + 1"
  have "\<not> tag_persisted (render_tag ''IG'' ?n) ?st2"
  proof
    assume "tag_persisted (render_tag ''IG'' ?n) ?st2"
    then obtain c where "c \<in> set cs" "has_tag (render_tag ''IG'' ?n) c"
      by (auto simp: tag_persisted_def cs2 list_ex_iff)
    then have "has_prefixed_tag ''IG'' c"
      using has_tag_prefixed[of "render_tag ''IG'' ?n" c] by (simp add: trim_render_IG)
    with \<open>c \<in> set cs\<close> assms(3) show False by (auto simp: list_ex_iff)
  qed
  then have g2: "fst (post_tags_generate ''Instagram'' ?st2)
             = TagGenerated (render_tag ''IG'' ?n) ''IG'' ?n"
    using post_tags_generate_ok[OF f2 ne Instagram_prefix]
    by (simp add: Let_def)
  have n2: "?n = 2" using l2 by simp
  have r2: "render_tag ''IG'' 2 = ''IG00002''" by code_simp
  have "fst (post_tags_generate ''Instagram'' ?st2) = TagGenerated ''IG00002'' ''IG'' 2"
    by (simp only: g2 n2 r2)
  then show ?thesis using c1 c2 s by simp
qed

text \<open>Claim C4, witness: a fresh store, and no campaign at all after the deletions.\<close>

theorem history_preserved_witness:
  "faults fresh_state = []
   \<and> fst (post_tags_generate ''Instagram'' fresh_state) = TagGenerated ''IG00001'' ''IG'' 1
   \<and> tagCounters (snd (syncTagCounters
        ((snd (post_tags_generate ''Instagram'' fresh_state))\<lparr>campaigns := []\<rparr>))) ''IG'' = Some 1
   \<and> fst (post_tags_generate ''Instagram'' (snd (syncTagCounters
        ((snd (post_tags_generate ''Instagram'' fresh_state))\<lparr>campaigns := []\<rparr>))))
       = TagGenerated ''IG00002'' ''IG'' 2"
proof -
  have f: "faults fresh_state = []" by (simp add: fresh_state_def)
  have g: "fst (post_tags_generate ''Instagram'' fresh_state) = TagGenerated ''IG00001'' ''IG'' 1"
    by code_simp
  have e: "\<not> list_ex (has_prefixed_tag ''IG'') []" by simp
  from history_preserved[OF f g e refl] f g show ?thesis by simp
qed

section \<open>Idempotence of the reconciliation\<close>

text \<open>
  Claim C5. When the store does not fail, a second reconciliation right after a first one
  leaves the counters as the first one left them.
\<close>

theorem reconcile_idempotent:
  assumes "faults st = []"
  shows "tagCounters (snd (syncTagCounters (snd (syncTagCounters st))))
         = tagCounters (snd (syncTagCounters st))"
proof -
  have 1: "syncTagCounters st = (Inr (), sync_result st)"
    using assms by (rule syncTagCounters_ok)
  have "faults (sync_result st) = []"
    using assms by (simp add: sync_result_fields)
  then have 2: "syncTagCounters (sync_result st) = (Inr (), sync_result (sync_result st))"
    by (rule syncTagCounters_ok)
  show ?thesis
    by (simp add: 1 2 sync_result_idem)
qed

text \<open>Claim C5, witness: two campaigns with tags of two prefixes.\<close>

theorem reconcile_idempotent_witness:
  "faults demo_state = []
   \<and> tagCounters (snd (syncTagCounters (snd (syncTagCounters demo_state))))
     = tagCounters (snd (syncTagCounters demo_state))"
  using reconcile_idempotent[of demo_state]
  by (simp add: demo_state_def)

section \<open>Store failures during the reconciliation\<close>

text \<open>
  Claim C9. The claim says that a failure of the store during the reconciliation reaches
  the caller, so that the manual endpoint reports it. \<open>syncTagCounters\<close> catches every
  error and only logs it: when the very first call to the store fails, the endpoint
  still answers that the counters were synced. No second call is made (the next entry of
  the fault list is still there), and nothing is written.
\<close>

theorem sync_endpoint_hides_failure:
  "post_tags_sync (demo_state\<lparr>faults := [True, False]\<rparr>)
   = (TagCountersSynced,
      demo_state\<lparr>faults := [False], trace := [Respond TagCountersSynced]\<rparr>)"
  by (simp add: post_tags_sync_def syncTagCounters_def syncTagCounters_try_def bind_io_def
      campaigns_find_all_def store_read_def store_call_def respond_def demo_state_def)

text \<open>The same holds for every state and every schedule of failures.\<close>

lemma sync_endpoint_reports_success: "fst (post_tags_sync st) = TagCountersSynced"
  by (simp add: post_tags_sync_def syncTagCounters_def respond_def split: prod.splits)

section \<open>Tags with trailing characters\<close>




section \<open>The campaign tag validator\<close>

text \<open>
  Claim C6. The claim says that the validation compares trimmed tags on both sides. The
  handlers trim the submitted tags only; the persisted tags enter the comparison as they
  are stored, and they are stored as they were submitted. A campaign saved with the tag
  \<open>FB00010\<close> followed by a space therefore does not stop a second campaign with the tag
  \<open>FB00010\<close>: both saves succeed.
\<close>

theorem padded_duplicate_saved:
  "fst (post_campaigns ''65a000000000000000000001'' padded_submission fresh_state)
     = CampaignSaved ''MK_000001''
   \<and> fst (post_campaigns ''65a000000000000000000002'' plain_submission
            (snd (post_campaigns ''65a000000000000000000001'' padded_submission fresh_state)))
     = CampaignSaved ''MK_000002''"
  by code_simp



text \<open>
  Claim C8. Whenever the create handler or the update handler answers with a duplicate
  within the campaign or across campaigns, the campaigns, the counters and the sequence of
  campaign codes are as before the call, and the response is the only event of the call:
  no campaign was saved and no counter was set. This holds for every schedule of store
  failures.
\<close>

theorem rejected_save_writes_nothing:
  "(is_duplicate_response (fst (post_campaigns new_oid d st))
      \<longrightarrow> nothing_written st (post_campaigns new_oid d st))
   \<and> (is_duplicate_response (fst (put_campaign ObjectId i d st))
      \<longrightarrow> nothing_written st (put_campaign ObjectId i d st))"
proof (intro conjI impI)
  assume dup: "is_duplicate_response (fst (post_campaigns new_oid d st))"
  obtain res st1 where t: "post_campaigns_try new_oid d st = (res, st1)"
    by (cases "post_campaigns_try new_oid d st")
  show "nothing_written st (post_campaigns new_oid d st)"
  proof (cases res)
    case (Inl e)
    with t dup show ?thesis by (simp add: post_campaigns_def respond_def)
  next
    case (Inr r)
    with t dup post_campaigns_try_cases[of new_oid d st r st1] show ?thesis
      by (auto simp: post_campaigns_def)
  qed
next
  assume dup: "is_duplicate_response (fst (put_campaign ObjectId i d st))"
  show "nothing_written st (put_campaign ObjectId i d st)"
  proof (cases "ObjectId i")
    case None
    with dup show ?thesis by (simp add: put_campaign_def respond_def)
  next
    case (Some objectId)
    obtain res st1 where t: "put_campaign_try objectId i d st = (res, st1)"
      by (cases "put_campaign_try objectId i d st")
    show ?thesis
    proof (cases "no_data d")
      case True
      with dup Some show ?thesis by (simp add: put_campaign_def respond_def)
    next
      case False
      show ?thesis
      proof (cases res)
        case (Inl e)
        with t dup Some False show ?thesis by (simp add: put_campaign_def respond_def)
      next
        case (Inr r)
        with t dup Some False put_campaign_try_cases[of objectId i d st r st1] show ?thesis
          by (auto simp: put_campaign_def)
      qed
    qed
  qed
qed

text \<open>
  Claim C8, witness: a create that repeats a persisted tag, and an update that carries the
  same tag twice.
\<close>

theorem rejected_save_writes_nothing_witness:
  "is_duplicate_response (fst (post_campaigns ''65a000000000000000000003'' plain_submission demo_state))
   \<and> nothing_written demo_state
       (post_campaigns ''65a000000000000000000003'' plain_submission demo_state)
   \<and> is_duplicate_response
       (fst (put_campaign canonical_ObjectId ''65a000000000000000000002'' repeated_submission
              demo_state))
   \<and> nothing_written demo_state
       (put_campaign canonical_ObjectId ''65a000000000000000000002'' repeated_submission demo_state)"
proof -
  have 1: "fst (post_campaigns ''65a000000000000000000003'' plain_submission demo_state)
           = DuplicateAcrossCampaigns [''FB00010'']"
    by code_simp
  have 2: "fst (put_campaign canonical_ObjectId ''65a000000000000000000002'' repeated_submission
                 demo_state) = DuplicateInCampaign [''TT00001'']"
    by code_simp
  show ?thesis
    using rejected_save_writes_nothing[where new_oid = "''65a000000000000000000003''"
        and d = plain_submission and st = demo_state and ObjectId = canonical_ObjectId
        and i = "''65a000000000000000000002''"]
      rejected_save_writes_nothing[where new_oid = "''65a000000000000000000003''"
        and d = repeated_submission and st = demo_state and ObjectId = canonical_ObjectId
        and i = "''65a000000000000000000002''"]
    by (simp add: 1 2)
qed

end
